theory Spec2Isabelle
  imports Main "HOL-Library.Word" "HOL-Library.Sublist"
begin

unbundle bit_operations_syntax

section \<open>Strings\<close>

text \<open>
  A Python \<open>str\<close> is modelled as a \<^typ>\<open>string\<close>; every \<^typ>\<open>char\<close> stands for one
  code point (the range 0..255).
\<close>

definition newline :: char where
  "newline = CHR 0x0A"

text \<open>\<open>str.isspace\<close> on the code points below 256.\<close>

definition py_isspace :: "char \<Rightarrow> bool" where
  "py_isspace c = ((of_char c :: nat) \<in> {9, 10, 11, 12, 13, 28, 29, 30, 31, 32, 133, 160})"

text \<open>\<open>s.strip()\<close>: leading and trailing whitespace removed.\<close>

definition strip :: "string \<Rightarrow> string" where
  "strip s = rev (dropWhile py_isspace (rev (dropWhile py_isspace s)))"

text \<open>\<open>s.lower()\<close> on the code points below 256.\<close>

definition lower_char :: "char \<Rightarrow> char" where
  "lower_char c =
     (let n = (of_char c :: nat)
      in if (65 \<le> n \<and> n \<le> 90) \<or> (192 \<le> n \<and> n \<le> 222 \<and> n \<noteq> 215)
         then char_of (n + 32) else c)"

definition lower :: "string \<Rightarrow> string" where
  "lower s = map lower_char s"

text \<open>\<open>str(idx)\<close> for a non-negative integer: its decimal digits.\<close>

definition digit :: "nat \<Rightarrow> char" where
  "digit d = ''0123456789'' ! d"

fun str_nat :: "nat \<Rightarrow> string" where
  "str_nat n = (if n < 10 then [digit n] else str_nat (n div 10) @ [digit (n mod 10)])"

declare str_nat.simps [simp del]

section \<open>Regular expressions of the program\<close>

text \<open>
  The three patterns of the program have one shape: an opening part, the lazy group
  \<open>(.*?)\<close>, and a closing literal that ends the pattern. A literal matches at the head
  of the text and leaves the remainder.
\<close>

fun match_lit :: "string \<Rightarrow> string \<Rightarrow> string option" where
  "match_lit [] s = Some s"
| "match_lit (p # ps) [] = None"
| "match_lit (p # ps) (x # xs) = (if p = x then match_lit ps xs else None)"

text \<open>
  \<open>(.*?)\<close> followed by the closing literal: the literal is tried first, and only when
  it fails one more character is taken into the group. Without \<open>re.DOTALL\<close> the dot
  does not match a newline. The result is the group and the text after the match.
\<close>

fun lazy_until :: "bool \<Rightarrow> string \<Rightarrow> string \<Rightarrow> (string \<times> string) option" where
  "lazy_until dotall cl [] =
     (case match_lit cl [] of Some r \<Rightarrow> Some ([], r) | None \<Rightarrow> None)"
| "lazy_until dotall cl (x # xs) =
     (case match_lit cl (x # xs) of
        Some r \<Rightarrow> Some ([], r)
      | None \<Rightarrow>
          if \<not> dotall \<and> x = newline then None
          else (case lazy_until dotall cl xs of
                  None \<Rightarrow> None
                | Some (c, r) \<Rightarrow> Some (x # c, r)))"

text \<open>
  The opening part \<open><ns0:code[^>]*>\<close>: the literal, then the longest run of
  characters other than \<open>>\<close>, then \<open>>\<close>.
\<close>

definition code_open :: "string \<Rightarrow> string option" where
  "code_open s =
     (case match_lit ''<ns0:code'' s of
        None \<Rightarrow> None
      | Some r \<Rightarrow>
          (case dropWhile (\<lambda>c. c \<noteq> CHR ''>'') r of
             [] \<Rightarrow> None
           | g # r' \<Rightarrow> Some r'))"

text \<open>
  A match that starts at the head of the text: the captured group and the length of
  the whole match.
\<close>

definition match_at ::
  "(string \<Rightarrow> string option) \<Rightarrow> bool \<Rightarrow> string \<Rightarrow> string \<Rightarrow> (string \<times> nat) option" where
  "match_at opening dotall cl s =
     (case opening s of
        None \<Rightarrow> None
      | Some r \<Rightarrow>
          (case lazy_until dotall cl r of
             None \<Rightarrow> None
           | Some (c, rest) \<Rightarrow> Some (c, length s - length rest)))"

text \<open>
  \<open>re.findall\<close> with \<open>re.DOTALL\<close>: the scan goes through the positions from left to right;
  a match yields its group and the scan resumes after it. The first argument after the
  pattern is the number of positions still covered by the previous match.
\<close>

fun re_findall_from ::
  "(string \<Rightarrow> string option) \<Rightarrow> string \<Rightarrow> nat \<Rightarrow> string \<Rightarrow> string list" where
  "re_findall_from opening cl (Suc k) [] = []"
| "re_findall_from opening cl (Suc k) (x # xs) = re_findall_from opening cl k xs"
| "re_findall_from opening cl 0 [] =
     (case match_at opening True cl [] of Some (c, n) \<Rightarrow> [c] | None \<Rightarrow> [])"
| "re_findall_from opening cl 0 (x # xs) =
     (case match_at opening True cl (x # xs) of
        Some (c, n) \<Rightarrow> c # re_findall_from opening cl (n - 1) xs
      | None \<Rightarrow> re_findall_from opening cl 0 xs)"

definition re_findall :: "(string \<Rightarrow> string option) \<Rightarrow> string \<Rightarrow> string \<Rightarrow> string list" where
  "re_findall opening cl s = re_findall_from opening cl 0 s"

text \<open>\<open>re.search\<close> without flags: the group of the leftmost match, if there is one.\<close>

fun re_search ::
  "(string \<Rightarrow> string option) \<Rightarrow> string \<Rightarrow> string \<Rightarrow> string option" where
  "re_search opening cl [] = map_option fst (match_at opening False cl [])"
| "re_search opening cl (x # xs) =
     (case match_at opening False cl (x # xs) of
        Some (c, n) \<Rightarrow> Some c
      | None \<Rightarrow> re_search opening cl xs)"

section \<open>File system\<close>

text \<open>
  The state of the file system as far as the program observes it: the text of every
  regular file by path, the paths that are directories, and the paths at which the
  operating system refuses to create a directory or to open a file for writing
  (permissions, a missing parent directory). Every failure of a system call is a value.
\<close>

datatype error = FileNotFoundError | ParseError | OSError

record filesystem =
  files :: "string \<rightharpoonup> string"
  dirs :: "string set"
  denied :: "string set"

text \<open>\<open>os.makedirs(path, exist_ok=True)\<close>\<close>

definition os_makedirs :: "filesystem \<Rightarrow> string \<Rightarrow> error + filesystem" where
  "os_makedirs fs path =
     (if path \<in> dom (files fs) \<or> path \<in> denied fs then Inl OSError
      else Inr (fs\<lparr>dirs := insert path (dirs fs)\<rparr>))"

text \<open>\<open>with open(path, 'w', encoding='utf-8') as f: f.write(data)\<close>\<close>

definition write_file :: "filesystem \<Rightarrow> string \<Rightarrow> string \<Rightarrow> error + filesystem" where
  "write_file fs path data =
     (if path \<in> dirs fs \<or> path \<in> denied fs then Inl OSError
      else Inr (fs\<lparr>files := (files fs)(path \<mapsto> data)\<rparr>))"

text \<open>\<open>os.path.join(a, b)\<close> of \<open>posixpath\<close>\<close>

definition os_path_join :: "string \<Rightarrow> string \<Rightarrow> string" where
  "os_path_join a b =
     (if prefix ''/'' b then b
      else if a = [] \<or> suffix ''/'' a then a @ b
      else a @ ''/'' @ b)"

section \<open>Dependency collector\<close>

definition extract_text_between_tags ::
  "filesystem \<Rightarrow> string \<Rightarrow> error + (string \<times> string) list" where
  "extract_text_between_tags fs file_path =
     (case files fs file_path of
        None \<Rightarrow> Inl FileNotFoundError
      | Some content \<Rightarrow>
          (let reference_matches =
                 map (\<lambda>m. (''reference'', strip m))
                   (re_findall (match_lit ''<reference>'') ''</reference>'' content);
               import_matches =
                 map (\<lambda>m. (''import'', strip m))
                   (re_findall (match_lit ''<import>'') ''</import>'' content)
           in Inr (reference_matches @ import_matches)))"

text \<open>
  The successive tag contents of a text in document order, as the specification
  describes them: the text before a match holds no opening tag, the content of a match
  holds no closing tag, and the scan goes on after the closing tag.
\<close>

inductive tag_contents :: "string \<Rightarrow> string \<Rightarrow> string \<Rightarrow> string list \<Rightarrow> bool"
  for op :: string and cl :: string where
  no_open: "\<not> sublist op s \<Longrightarrow> tag_contents op cl s []"
| no_close: "\<not> sublist op t \<Longrightarrow> \<not> sublist cl r \<Longrightarrow> tag_contents op cl (t @ op @ r) []"
| block: "\<not> sublist op t \<Longrightarrow> \<not> sublist cl c \<Longrightarrow> tag_contents op cl r cs \<Longrightarrow>
     tag_contents op cl (t @ op @ c @ cl @ r) (c # cs)"

text \<open>
  A literal whose first character does not occur in it again, as the tags of the program
  are: two occurrences of such a literal in a text never overlap.
\<close>

definition tag_like :: "string \<Rightarrow> bool" where
  "tag_like p = (p \<noteq> [] \<and> hd p \<notin> set (tl p))"

section \<open>XML trees\<close>

text \<open>
  An element of \<open>xml.etree.ElementTree\<close>: the tag in the form \<open>{uri}local\<close>, the
  attribute dictionary, the text, the children and the tail. The parser \<open>ET.parse\<close> and
  the serialiser \<open>ET.tostring\<close> belong to the standard library; the extractor takes
  them as parameters (\<open>parse\<close> yields \<open>None\<close> for a document that is not well formed).
\<close>

datatype element =
  Element (tag: string) (attrib: "(string \<times> string) list") (elem_text: "string option")
    (children: "element list") (elem_tail: "string option")

text \<open>\<open>elem.iter()\<close>: the element and its descendants in document order.\<close>

fun iter :: "element \<Rightarrow> element list" where
  "iter (Element t a x cs y) = Element t a x cs y # concat (map iter cs)"

text \<open>\<open>elem.findall(".//tag")\<close>: the descendants with the tag, in document order.\<close>

definition findall_descendants :: "string \<Rightarrow> element \<Rightarrow> element list" where
  "findall_descendants tg e = filter (\<lambda>x. tag x = tg) (concat (map iter (children e)))"

text \<open>\<open>elem.findall("tag")\<close>: the children with the tag, in document order.\<close>

definition findall_children :: "string \<Rightarrow> element \<Rightarrow> element list" where
  "findall_children tg e = filter (\<lambda>x. tag x = tg) (children e)"

text \<open>\<open>elem.get(key, default)\<close>\<close>

definition get :: "element \<Rightarrow> string \<Rightarrow> string \<Rightarrow> string" where
  "get e key dflt = (case map_of (attrib e) key of Some v \<Rightarrow> v | None \<Rightarrow> dflt)"

section \<open>Code extractor\<close>

definition code_blocks :: "string \<Rightarrow> string list" where
  "code_blocks s = re_findall code_open ''</ns0:code>'' s"

definition detect_language :: "string \<Rightarrow> string" where
  "detect_language s =
     (case re_search (match_lit ''<ns0:language>'') ''</ns0:language>'' s of
        Some g \<Rightarrow> g
      | None \<Rightarrow> ''unknown'')"

definition extension_map :: "string \<rightharpoonup> string" where
  "extension_map = [''csharp'' \<mapsto> ''cs'', ''powershell'' \<mapsto> ''ps1'', ''visualbasic'' \<mapsto> ''vb'']"

definition file_extension :: "string \<Rightarrow> string" where
  "file_extension language =
     (case extension_map (lower language) of Some e \<Rightarrow> e | None \<Rightarrow> ''txt'')"

definition file_name :: "string \<Rightarrow> nat \<Rightarrow> string \<Rightarrow> string" where
  "file_name stage_name idx ext = stage_name @ ''_'' @ str_nat idx @ ''.'' @ ext"

text \<open>
  The loop \<open>for idx, code in enumerate(code_blocks, start=1)\<close>; an error of a write
  ends the run and leaves the files written so far.
\<close>

fun write_blocks ::
  "string \<Rightarrow> string \<Rightarrow> string \<Rightarrow> nat \<Rightarrow> string list \<Rightarrow> filesystem
     \<Rightarrow> error option \<times> filesystem" where
  "write_blocks output_dir stage_name ext idx [] fs = (None, fs)"
| "write_blocks output_dir stage_name ext idx (code # rest) fs =
     (case write_file fs (os_path_join output_dir (file_name stage_name idx ext)) (strip code) of
        Inl e \<Rightarrow> (Some e, fs)
      | Inr fs' \<Rightarrow> write_blocks output_dir stage_name ext (Suc idx) rest fs')"

text \<open>The body of the loop over the stages.\<close>

definition process_stage ::
  "(element \<Rightarrow> string) \<Rightarrow> string \<Rightarrow> element \<Rightarrow> filesystem \<Rightarrow> error option \<times> filesystem" where
  "process_stage tostring output_dir stage fs =
     (let stage_name = get stage ''name'' ''UnnamedStage'';
          blocks = code_blocks (tostring stage);
          language = detect_language (tostring stage);
          ext = file_extension language
      in write_blocks output_dir stage_name ext 1 blocks fs)"

text \<open>A \<open>for\<close> loop whose body may raise.\<close>

fun for_each ::
  "('a \<Rightarrow> filesystem \<Rightarrow> error option \<times> filesystem) \<Rightarrow> 'a list \<Rightarrow> filesystem
     \<Rightarrow> error option \<times> filesystem" where
  "for_each body [] fs = (None, fs)"
| "for_each body (x # xs) fs =
     (case body x fs of
        (Some e, fs') \<Rightarrow> (Some e, fs')
      | (None, fs') \<Rightarrow> for_each body xs fs')"

definition extract_code_from_robot_release ::
  "(string \<Rightarrow> element option) \<Rightarrow> (element \<Rightarrow> string) \<Rightarrow> string \<Rightarrow> string \<Rightarrow> filesystem
     \<Rightarrow> error option \<times> filesystem" where
  "extract_code_from_robot_release parse tostring file_path output_dir fs =
     (case os_makedirs fs output_dir of
        Inl e \<Rightarrow> (Some e, fs)
      | Inr fs1 \<Rightarrow>
          (case files fs1 file_path of
             None \<Rightarrow> (Some FileNotFoundError, fs1)
           | Some doc \<Rightarrow>
               (case parse doc of
                  None \<Rightarrow> (Some ParseError, fs1)
                | Some root \<Rightarrow>
                    for_each (\<lambda>content.
                      for_each (\<lambda>robot_object.
                        for_each (\<lambda>process_item.
                          for_each (process_stage tostring output_dir)
                            (findall_children ''{http://www.robotvendor.com/product/process}stage''
                               process_item))
                          (findall_children ''{http://www.robotvendor.com/product/process}process''
                             robot_object))
                        (findall_children ''{http://www.robotvendor.com/product/process}object''
                           content))
                      (findall_descendants ''{http://www.robotvendor.com/product/release}contents''
                         root)
                      fs1)))"

text \<open>
  A language tag written in any letter case: every character is the lower-case letter
  of the key or its upper-case form.
\<close>

definition same_letter :: "char \<Rightarrow> char \<Rightarrow> bool" where
  "same_letter a x = (x = a \<or> (of_char x :: nat) + 32 = of_char a)"

definition any_case :: "string \<Rightarrow> string \<Rightarrow> bool" where
  "any_case key s = list_all2 same_letter key s"

section \<open>SBOM assembler\<close>

text \<open>
  \<open>uuid.uuid4()\<close> reads 16 bytes from the operating system's entropy source and is
  therefore not a function of the program's input. The source is modelled as a sequence
  of 128-bit values (\<open>int.from_bytes(os.urandom(16))\<close>), together with the number of
  values drawn so far.
\<close>

type_synonym entropy = "nat \<Rightarrow> 128 word"

text \<open>
  \<open>UUID(bytes=os.urandom(16), version=4)\<close>: the variant bits are set to RFC 4122 and
  the version nibble to 4.
\<close>

definition uuid4 :: "128 word \<Rightarrow> 128 word" where
  "uuid4 r =
     (((r AND NOT (push_bit 48 0xc000)) OR push_bit 48 0x8000)
        AND NOT (push_bit 64 0xf000)) OR push_bit 76 4"

definition hex_digit :: "nat \<Rightarrow> char" where
  "hex_digit d = ''0123456789abcdef'' ! (d mod 16)"

text \<open>\<open>'%032x' % int\<close>: 32 hexadecimal digits, most significant first.\<close>

definition hex32 :: "128 word \<Rightarrow> string" where
  "hex32 w = map (\<lambda>i. hex_digit (unat (drop_bit (4 * (31 - i)) w AND 0xF))) [0..<32]"

text \<open>\<open>str(uuid)\<close>: the digits grouped 8-4-4-4-12.\<close>

definition uuid_str :: "128 word \<Rightarrow> string" where
  "uuid_str u =
     (let h = hex32 u
      in take 8 h @ ''-'' @ take 4 (drop 8 h) @ ''-'' @ take 4 (drop 12 h) @ ''-'' @
         take 4 (drop 16 h) @ ''-'' @ drop 20 h)"

record supplier_info =
  sup_name :: string

record component =
  bom_ref :: string
  name :: string
  version :: string
  purl :: string
  hashes :: "string list"
  licenses :: "string list"
  supplier :: supplier_info

record sbom =
  bomFormat :: string
  specVersion :: string
  doc_version :: int
  components :: "component list"

text \<open>The dictionary built for one library inside the loop of \<open>generate_sbom\<close>.\<close>

definition new_component :: "string \<Rightarrow> string \<Rightarrow> component" where
  "new_component ref lib_name =
     \<lparr> bom_ref = ref,
       name = lib_name,
       version = ''unknown'',
       purl = ''pkg:generic/'' @ lib_name @ ''@unknown'',
       hashes = [],
       licenses = [],
       supplier = \<lparr> sup_name = ''unknown'' \<rparr> \<rparr>"

text \<open>
  The \<open>for lib_type, lib_name in libraries\<close> loop. The state is the list
  \<open>components\<close>, the set \<open>unique_libraries\<close> and the number of identifiers drawn.
\<close>

fun sbom_loop ::
  "entropy \<Rightarrow> (string \<times> string) list \<Rightarrow> component list \<times> string set \<times> nat
     \<Rightarrow> component list \<times> string set \<times> nat" where
  "sbom_loop rnd [] st = st"
| "sbom_loop rnd ((lib_type, lib_name) # rest) (comps, unique_libraries, n) =
     (if lib_name \<notin> unique_libraries
      then sbom_loop rnd rest
             (comps @ [new_component (uuid_str (uuid4 (rnd n))) lib_name],
              insert lib_name unique_libraries, Suc n)
      else sbom_loop rnd rest (comps, unique_libraries, n))"

text \<open>
  \<open>generate_sbom(libraries)\<close>, started when \<open>n\<close> identifiers have been drawn from the
  entropy source; it returns the document and the number drawn afterwards.
\<close>

definition generate_sbom :: "entropy \<Rightarrow> nat \<Rightarrow> (string \<times> string) list \<Rightarrow> sbom \<times> nat" where
  "generate_sbom rnd n libraries =
     (case sbom_loop rnd libraries ([], {}, n) of
        (comps, unique_libraries, n') \<Rightarrow>
          (\<lparr> bomFormat = ''CycloneDX'',
             specVersion = ''1.4'',
             doc_version = 1,
             components = comps \<rparr>, n'))"

text \<open>
  The names of a sequence in the order of their first occurrence, each once: what the
  specification asks the component list to be.
\<close>

fun first_seen :: "'a list \<Rightarrow> 'a list" where
  "first_seen [] = []"
| "first_seen (x # xs) = x # first_seen (filter (\<lambda>y. y \<noteq> x) xs)"

text \<open>
  A document with the identifiers blanked: what two documents are compared by when the
  identifiers are left aside.
\<close>

definition without_refs :: "sbom \<Rightarrow> sbom" where
  "without_refs d = d\<lparr>components := map (\<lambda>c. c\<lparr>bom_ref := []\<rparr>) (components d)\<rparr>"

section \<open>Example documents\<close>

text \<open>A serialised stage whose language element spans three lines.\<close>

abbreviation (input) multiline_stage :: string where
  "multiline_stage \<equiv>
     ''<ns0:stage><ns0:language>'' @ [CHR 0x0A] @ ''csharp'' @ [CHR 0x0A] @
     ''</ns0:language><ns0:code>A</ns0:code></ns0:stage>''"

section \<open>Properties of the SBOM assembler\<close>

lemma first_seen_set: "set (first_seen xs) = set xs"
  by (induction xs rule: first_seen.induct) auto

lemma first_seen_distinct: "distinct (first_seen xs)"
  by (induction xs rule: first_seen.induct) (auto simp: first_seen_set)

lemma first_seen_length: "length (first_seen xs) = card (set xs)"
  using distinct_card [OF first_seen_distinct, of xs] by (simp add: first_seen_set)

text \<open>
  The loop in closed form: the components already built, then one component for every
  name not seen before, in the order of first occurrence, the \<open>k\<close>-th identifier drawn
  going to the \<open>k\<close>-th of them.
\<close>

lemma sbom_loop_eq:
  "sbom_loop rnd libs (comps, U, n) =
     (comps @ map (\<lambda>(k, x). new_component (uuid_str (uuid4 (rnd k))) x)
        (enumerate n (first_seen (filter (\<lambda>x. x \<notin> U) (map snd libs)))),
      U \<union> snd ` set libs,
      n + length (first_seen (filter (\<lambda>x. x \<notin> U) (map snd libs))))"
proof (induction libs arbitrary: comps U n)
  case Nil
  then show ?case by simp
next
  case (Cons a libs)
  obtain lib_type lib_name where a: "a = (lib_type, lib_name)" by (cases a)
  show ?case
    by (auto simp add: a Cons.IH conj_commute)
qed

lemma generate_sbom_eq:
  "generate_sbom rnd n libs =
    (\<lparr> bomFormat = ''CycloneDX'', specVersion = ''1.4'', doc_version = 1,
       components = map (\<lambda>(k, x). new_component (uuid_str (uuid4 (rnd k))) x)
          (enumerate n (first_seen (map snd libs))) \<rparr>,
     n + card (snd ` set libs))"
  by (simp add: generate_sbom_def sbom_loop_eq first_seen_length)

lemma names_enumerate:
  "map (name \<circ> (\<lambda>(k, x). new_component (f k) x)) (enumerate n xs) = xs"
proof -
  have "name \<circ> (\<lambda>(k, x). new_component (f k) x) = snd"
    by (auto simp: new_component_def)
  then show ?thesis by simp
qed

lemma uuid_str_length: "length (uuid_str u) = 36"
  by (simp add: uuid_str_def hex32_def Let_def)

text \<open>
  C1. For every input sequence of (kind, name) pairs the component list of
  \<open>generate_sbom\<close> holds exactly one entry per distinct name, whatever the kind, in the
  order of the first occurrence of each name; the number of components is the number of
  distinct names.
\<close>

theorem generate_sbom_components:
  "map name (components (fst (generate_sbom rnd n libraries))) = first_seen (map snd libraries)
   \<and> distinct (map name (components (fst (generate_sbom rnd n libraries))))
   \<and> set (map name (components (fst (generate_sbom rnd n libraries)))) = snd ` set libraries
   \<and> length (components (fst (generate_sbom rnd n libraries))) = card (snd ` set libraries)"
proof -
  have nm: "map name (components (fst (generate_sbom rnd n libraries))) =
      first_seen (map snd libraries)"
    by (simp add: generate_sbom_eq names_enumerate)
  have "length (components (fst (generate_sbom rnd n libraries))) = card (snd ` set libraries)"
    by (simp add: generate_sbom_eq first_seen_length)
  then show ?thesis
    using nm by (simp add: first_seen_distinct first_seen_set)
qed

text \<open>
  The scenario of the specification: \<open>Newtonsoft.Json\<close> referenced twice and
  \<open>System.IO\<close> imported once give two components, in this order.
\<close>

theorem generate_sbom_components_witness:
  "map name (components (fst (generate_sbom (\<lambda>k. of_nat k) 0
      [(''reference'', ''Newtonsoft.Json''), (''reference'', ''Newtonsoft.Json''),
       (''import'', ''System.IO'')])))
     = [''Newtonsoft.Json'', ''System.IO'']
   \<and> length (components (fst (generate_sbom (\<lambda>k. of_nat k) 0
      [(''reference'', ''Newtonsoft.Json''), (''reference'', ''Newtonsoft.Json''),
       (''import'', ''System.IO'')]))) = 2"
  using generate_sbom_components [of "\<lambda>k. of_nat k" 0
      "[(''reference'', ''Newtonsoft.Json''), (''reference'', ''Newtonsoft.Json''),
       (''import'', ''System.IO'')]"]
  by (simp add: card_insert_if)

text \<open>
  C5. For every input the document of \<open>generate_sbom\<close> has the fields
  \<open>bomFormat = "CycloneDX"\<close>, \<open>specVersion = "1.4"\<close>, \<open>version = 1\<close> and the component
  list; every component has a non-empty \<open>bom-ref\<close> (36 characters), the name of a library
  of the input, version \<open>"unknown"\<close>, the purl \<open>pkg:generic/<name>@unknown\<close>, empty lists
  of hashes and licenses and the supplier name \<open>"unknown"\<close>.
\<close>

theorem generate_sbom_shape:
  "bomFormat (fst (generate_sbom rnd n libraries)) = ''CycloneDX''
   \<and> specVersion (fst (generate_sbom rnd n libraries)) = ''1.4''
   \<and> doc_version (fst (generate_sbom rnd n libraries)) = 1
   \<and> (\<forall>c \<in> set (components (fst (generate_sbom rnd n libraries))).
        bom_ref c \<noteq> [] \<and> length (bom_ref c) = 36
        \<and> name c \<in> snd ` set libraries
        \<and> version c = ''unknown''
        \<and> purl c = ''pkg:generic/'' @ name c @ ''@unknown''
        \<and> hashes c = [] \<and> licenses c = []
        \<and> supplier c = \<lparr> sup_name = ''unknown'' \<rparr>)"
proof -
  have "bom_ref c \<noteq> [] \<and> length (bom_ref c) = 36
        \<and> name c \<in> snd ` set libraries
        \<and> version c = ''unknown''
        \<and> purl c = ''pkg:generic/'' @ name c @ ''@unknown''
        \<and> hashes c = [] \<and> licenses c = []
        \<and> supplier c = \<lparr> sup_name = ''unknown'' \<rparr>"
    if "c \<in> set (components (fst (generate_sbom rnd n libraries)))" for c
  proof -
    from that obtain k x where kx: "(k, x) \<in> set (enumerate n (first_seen (map snd libraries)))"
      and c: "c = new_component (uuid_str (uuid4 (rnd k))) x"
      by (auto simp: generate_sbom_eq)
    from kx have "x \<in> set (first_seen (map snd libraries))"
      by (auto simp: in_set_enumerate_eq)
    then have x: "x \<in> snd ` set libraries" by (simp add: first_seen_set)
    have "length (bom_ref c) = 36" by (simp add: c new_component_def uuid_str_length)
    moreover from this have "bom_ref c \<noteq> []" by auto
    ultimately show ?thesis using x by (simp add: c new_component_def)
  qed
  then show ?thesis by (simp add: generate_sbom_eq)
qed

theorem generate_sbom_shape_witness:
  "fst (generate_sbom (\<lambda>k. of_nat k) 0 [(''reference'', ''Newtonsoft.Json'')]) =
     \<lparr> bomFormat = ''CycloneDX'', specVersion = ''1.4'', doc_version = 1,
       components = [\<lparr> bom_ref = ''00000000-0000-4000-8000-000000000000'',
          name = ''Newtonsoft.Json'', version = ''unknown'',
          purl = ''pkg:generic/Newtonsoft.Json@unknown'', hashes = [], licenses = [],
          supplier = \<lparr> sup_name = ''unknown'' \<rparr> \<rparr>] \<rparr>
   \<and> list_all (\<lambda>c. bom_ref c \<noteq> [] \<and> version c = ''unknown'')
       (components (fst (generate_sbom (\<lambda>k. of_nat k) 0 [(''reference'', ''Newtonsoft.Json'')])))"
  using generate_sbom_shape [of "\<lambda>k. of_nat k" 0 "[(''reference'', ''Newtonsoft.Json'')]"]
  by (simp add: generate_sbom_def new_component_def uuid_str_def uuid4_def hex32_def
      hex_digit_def upt_rec)

text \<open>
  C6 as stated: two invocations of \<open>generate_sbom\<close> on the same input give equal
  documents. It fails: the second invocation draws fresh identifiers from the entropy
  source, so the documents differ in \<open>bom-ref\<close>.
\<close>

theorem generate_sbom_pure_counterexample:
  "fst (generate_sbom (\<lambda>k. of_nat k) 0 [(''reference'', ''Newtonsoft.Json'')]) \<noteq>
   fst (generate_sbom (\<lambda>k. of_nat k)
          (snd (generate_sbom (\<lambda>k. of_nat k) 0 [(''reference'', ''Newtonsoft.Json'')]))
          [(''reference'', ''Newtonsoft.Json'')])"
  by (simp add: generate_sbom_def new_component_def uuid_str_def uuid4_def hex32_def
      hex_digit_def upt_rec)

text \<open>
  C6 as amended: \<open>generate_sbom\<close> touches no file, and its result is determined by the
  input sequence and the values it draws from the entropy source: two invocations on the
  same input give documents that are equal once the \<open>bom-ref\<close> identifiers are left
  aside, the \<open>k\<close>-th component carries the \<open>k\<close>-th identifier drawn, and one value is drawn
  per distinct name.
\<close>

theorem generate_sbom_up_to_identifiers:
  "without_refs (fst (generate_sbom rnd n libraries)) =
     without_refs (fst (generate_sbom rnd' n' libraries))
   \<and> map bom_ref (components (fst (generate_sbom rnd n libraries))) =
     map (\<lambda>k. uuid_str (uuid4 (rnd k))) [n..<n + card (snd ` set libraries)]
   \<and> snd (generate_sbom rnd n libraries) = n + card (snd ` set libraries)"
proof -
  have a: "map ((\<lambda>c. c\<lparr>bom_ref := []\<rparr>) \<circ> (\<lambda>(k, x). new_component (f k) x)) (enumerate m xs) =
      map (new_component []) xs" for f :: "nat \<Rightarrow> string" and m xs
  proof -
    have "(\<lambda>c. c\<lparr>bom_ref := []\<rparr>) \<circ> (\<lambda>(k, x). new_component (f k) x) = new_component [] \<circ> snd"
      by (auto simp: new_component_def)
    then show ?thesis by (simp flip: map_map)
  qed
  have b: "map (bom_ref \<circ> (\<lambda>(k, x). new_component (f k) x)) (enumerate m xs) =
      map f [m..<m + length xs]" for f :: "nat \<Rightarrow> string" and m xs
  proof -
    have "bom_ref \<circ> (\<lambda>(k, x). new_component (f k) x) = f \<circ> fst"
      by (auto simp: new_component_def)
    then show ?thesis by (simp flip: map_map)
  qed
  show ?thesis
    by (simp add: generate_sbom_eq without_refs_def a b first_seen_length)
qed

section \<open>Properties of the scan\<close>

lemma match_lit_Some: "match_lit p s = Some r \<longleftrightarrow> s = p @ r"
  by (induction p s rule: match_lit.induct) auto

lemma match_lit_None: "match_lit p s = None \<longleftrightarrow> \<not> prefix p s"
proof -
  have "match_lit p s \<noteq> None \<longleftrightarrow> prefix p s"
    by (auto simp: match_lit_Some prefix_def)
  then show ?thesis by blast
qed

lemma no_overlap:
  assumes "tag_like p" "\<not> sublist p t" "t \<noteq> []"
  shows "\<not> prefix p (t @ p @ r)"
proof
  assume a: "prefix p (t @ p @ r)"
  from assms(1) have pne: "p \<noteq> []" and hd: "hd p \<notin> set (tl p)"
    by (simp_all add: tag_like_def)
  from a have "prefix p t \<or> (\<exists>us. p = t @ us \<and> prefix us (p @ r))"
    by (simp only: prefix_append)
  moreover have "\<not> prefix p t" using assms(2) prefix_imp_sublist by blast
  ultimately obtain us where p: "p = t @ us" and us: "prefix us (p @ r)" by blast
  from p assms(3) have len: "length us < length p" by simp
  from us have "prefix us p \<or> (\<exists>vs. us = p @ vs \<and> prefix vs r)"
    by (simp only: prefix_append)
  moreover have "\<not> (\<exists>vs. us = p @ vs \<and> prefix vs r)"
  proof
    assume "\<exists>vs. us = p @ vs \<and> prefix vs r"
    then obtain vs where "us = p @ vs" by blast
    then have "length p \<le> length us" by simp
    with len show False by simp
  qed
  ultimately have pu: "prefix us p" by blast
  have une: "us \<noteq> []"
  proof
    assume "us = []"
    with p have "p = t" by simp
    with assms(2) show False by simp
  qed
  from pu obtain ws where pw: "p = us @ ws" by (auto simp only: prefix_def)
  from une pw have h1: "hd us = hd p" by (cases us) simp_all
  obtain x t' where t: "t = x # t'" using assms(3) by (cases t) auto
  have "tl p = t' @ us" by (subst p) (simp add: t)
  then have "set us \<subseteq> set (tl p)" by simp
  moreover have "hd us \<in> set us" using une by simp
  ultimately have "hd p \<in> set (tl p)" using h1 by auto
  with hd show False by simp
qed

lemma no_occurrence_after:
  assumes "p \<noteq> []" "hd p \<notin> set q" "\<not> sublist p r"
  shows "\<not> sublist p (q @ r)"
  using assms(2)
proof (induction q)
  case Nil
  then show ?case using assms(3) by simp
next
  case (Cons y q)
  have "\<not> prefix p (y # q @ r)"
    using assms(1) Cons.prems by (cases p) auto
  with Cons show ?case by (simp add: sublist_Cons_right)
qed

lemma first_occurrence:
  assumes "sublist p s" "p \<noteq> []"
  shows "\<exists>t r. s = t @ p @ r \<and> \<not> sublist p t"
  using assms(1)
proof (induction s)
  case Nil
  then show ?case using assms(2) by simp
next
  case (Cons x s)
  show ?case
  proof (cases "prefix p (x # s)")
    case True
    then obtain r where "x # s = [] @ p @ r" by (auto simp: prefix_def)
    moreover have "\<not> sublist p []" using assms(2) by simp
    ultimately show ?thesis by blast
  next
    case False
    with Cons.prems have "sublist p s" by (simp add: sublist_Cons_right)
    from Cons.IH [OF this] obtain t r where s: "s = t @ p @ r" and t: "\<not> sublist p t" by blast
    have "\<not> prefix p (x # t)"
    proof
      assume "prefix p (x # t)"
      then have "prefix p (x # s)" unfolding s by (metis Cons_eq_appendI prefix_prefix)
      with False show False by simp
    qed
    with t have "\<not> sublist p (x # t)" by (simp add: sublist_Cons_right)
    moreover have "x # s = (x # t) @ p @ r" by (simp add: s)
    ultimately show ?thesis by blast
  qed
qed

lemma lazy_until_Some: "lazy_until d cl s = Some (c, r) \<Longrightarrow> s = c @ cl @ r"
proof (induction s arbitrary: c)
  case Nil
  then show ?case by (auto simp: match_lit_Some split: option.splits)
next
  case (Cons x s)
  then show ?case
    by (auto simp: match_lit_Some split: option.splits if_splits)
qed

lemma lazy_until_None: "\<not> sublist cl s \<Longrightarrow> lazy_until d cl s = None"
proof (rule ccontr)
  assume a: "\<not> sublist cl s" and "lazy_until d cl s \<noteq> None"
  then obtain c r where "lazy_until d cl s = Some (c, r)" by auto
  from lazy_until_Some [OF this] a show False by auto
qed

lemma lazy_until_here: "lazy_until d cl (cl @ r) = Some ([], r)"
proof -
  have "match_lit cl (cl @ r) = Some r" by (simp add: match_lit_Some)
  then show ?thesis by (cases "cl @ r") auto
qed

lemma lazy_until_first:
  assumes "tag_like cl" "\<not> sublist cl c"
  shows "lazy_until True cl (c @ cl @ r) = Some (c, r)"
  using assms(2)
proof (induction c)
  case Nil
  show ?case using lazy_until_here [of True cl r] by simp
next
  case (Cons x c)
  from no_overlap [OF assms(1) Cons.prems] have "match_lit cl ((x # c) @ cl @ r) = None"
    by (simp add: match_lit_None)
  moreover from Cons.prems have "\<not> sublist cl c" by (simp add: sublist_Cons_right)
  ultimately show ?case using Cons.IH by simp
qed

lemma re_findall_from_drop:
  "k \<le> length s \<Longrightarrow> re_findall_from opening cl k s = re_findall_from opening cl 0 (drop k s)"
proof (induction k arbitrary: s)
  case 0
  then show ?case by simp
next
  case (Suc k)
  then obtain x xs where s: "s = x # xs" by (cases s) auto
  with Suc.prems have "k \<le> length xs" by simp
  from Suc.IH [OF this] show ?case by (simp add: s)
qed

lemma match_at_lit:
  "match_at (match_lit p) d cl (p @ rest) =
     (case lazy_until d cl rest of
        None \<Rightarrow> None
      | Some (c, r) \<Rightarrow> Some (c, length (p @ rest) - length r))"
proof -
  have "match_lit p (p @ rest) = Some rest" by (simp add: match_lit_Some)
  then show ?thesis by (simp add: match_at_def)
qed

lemma match_at_no_prefix: "\<not> prefix p s \<Longrightarrow> match_at (match_lit p) d cl s = None"
  by (simp add: match_at_def match_lit_None [THEN iffD2])

lemma re_findall_skip:
  assumes "tag_like p" "\<not> sublist p t"
  shows "re_findall_from (match_lit p) cl 0 (t @ p @ r) = re_findall_from (match_lit p) cl 0 (p @ r)"
  using assms(2)
proof (induction t)
  case Nil
  then show ?case by simp
next
  case (Cons x t)
  from no_overlap [OF assms(1) Cons.prems] have "\<not> prefix p ((x # t) @ p @ r)" by simp
  then have "match_at (match_lit p) True cl (x # t @ p @ r) = None"
    using match_at_no_prefix [of p "x # t @ p @ r"] by simp
  moreover from Cons.prems have "\<not> sublist p t" by (simp add: sublist_Cons_right)
  ultimately show ?case using Cons.IH by simp
qed

lemma re_findall_no_close:
  assumes "p \<noteq> []" "hd p \<notin> set q" "\<not> sublist cl r"
  shows "re_findall_from (match_lit p) cl 0 (q @ r) = []"
  using assms(2)
proof (induction q)
  case Nil
  have "re_findall_from (match_lit p) cl 0 s = []" if "\<not> sublist cl s" for s
    using that
  proof (induction s)
    case Nil
    then show ?case using assms(1)
      by (cases p) (auto simp: match_at_def)
  next
    case (Cons x s)
    have "match_at (match_lit p) True cl (x # s) = None"
    proof (cases "match_lit p (x # s)")
      case None
      then show ?thesis by (simp add: match_at_def)
    next
      case (Some r')
      then have "x # s = p @ r'" by (simp add: match_lit_Some)
      then have "suffix r' (x # s)" by (auto simp: suffix_def)
      with Cons.prems have "\<not> sublist cl r'"
        by (metis sublist_order.order.trans suffix_imp_sublist)
      then show ?thesis using Some by (simp add: match_at_def lazy_until_None)
    qed
    moreover from Cons.prems have "\<not> sublist cl s" by (simp add: sublist_Cons_right)
    ultimately show ?case using Cons.IH by simp
  qed
  from this [OF assms(3)] show ?case by simp
next
  case (Cons y q)
  have "\<not> prefix p (y # q @ r)"
    using assms(1) Cons.prems by (cases p) auto
  then have "match_at (match_lit p) True cl (y # q @ r) = None"
    by (rule match_at_no_prefix)
  with Cons show ?case by simp
qed

lemma re_findall_no_open:
  assumes "p \<noteq> []" "\<not> sublist p s"
  shows "re_findall_from (match_lit p) cl 0 s = []"
  using assms(2)
proof (induction s)
  case Nil
  then show ?case using assms(1) by (cases p) (auto simp: match_at_def)
next
  case (Cons x s)
  then have "\<not> prefix p (x # s)" and "\<not> sublist p s" by (auto simp: sublist_Cons_right)
  then show ?case using Cons.IH by (simp add: match_at_no_prefix)
qed

lemma re_findall_open_no_close:
  assumes "tag_like p" "\<not> sublist cl r"
  shows "re_findall_from (match_lit p) cl 0 (p @ r) = []"
proof -
  from assms(1) obtain a ps where p: "p = a # ps" and a: "a \<notin> set ps"
    by (cases p) (auto simp: tag_like_def)
  have "match_at (match_lit p) True cl (p @ r) = None"
    by (simp add: match_at_lit lazy_until_None [OF assms(2)])
  then have "re_findall_from (match_lit p) cl 0 (p @ r) = re_findall_from (match_lit p) cl 0 (ps @ r)"
    by (simp add: p)
  also have "\<dots> = []"
    by (rule re_findall_no_close) (use p a assms(2) in auto)
  finally show ?thesis .
qed

lemma re_findall_block:
  assumes "tag_like p" "tag_like cl" "\<not> sublist cl c"
  shows "re_findall_from (match_lit p) cl 0 (p @ c @ cl @ r) =
     c # re_findall_from (match_lit p) cl 0 r"
proof -
  from assms(1) obtain a ps where p: "p = a # ps" by (cases p) (auto simp: tag_like_def)
  have m: "match_at (match_lit p) True cl (p @ c @ cl @ r) =
      Some (c, length p + length c + length cl)"
    by (simp add: match_at_lit lazy_until_first [OF assms(2,3)])
  have "re_findall_from (match_lit p) cl 0 (p @ c @ cl @ r) =
      c # re_findall_from (match_lit p) cl (length ps + length c + length cl) (ps @ c @ cl @ r)"
    using m by (simp add: p)
  also have "re_findall_from (match_lit p) cl (length ps + length c + length cl) (ps @ c @ cl @ r) =
      re_findall_from (match_lit p) cl 0 (drop (length ps + length c + length cl) (ps @ c @ cl @ r))"
    by (rule re_findall_from_drop) simp
  also have "drop (length ps + length c + length cl) (ps @ c @ cl @ r) = r" by simp
  finally show ?thesis .
qed

lemma tag_contents_sound:
  assumes "tag_contents p cl s cs" "tag_like p" "tag_like cl"
  shows "re_findall (match_lit p) cl s = cs"
  using assms(1)
proof (induction rule: tag_contents.induct)
  case (no_open s)
  then show ?case using assms(2) by (simp add: re_findall_def re_findall_no_open tag_like_def)
next
  case (no_close t r)
  then show ?case
    using assms(2) by (simp add: re_findall_def re_findall_skip re_findall_open_no_close)
next
  case (block t c r cs)
  then show ?case
    using assms(2,3) by (simp add: re_findall_def re_findall_skip re_findall_block)
qed

lemma tag_contents_total:
  assumes "p \<noteq> []" "cl \<noteq> []"
  shows "\<exists>cs. tag_contents p cl s cs"
proof (induction s rule: length_induct)
  case (1 s)
  show ?case
  proof (cases "sublist p s")
    case False
    then show ?thesis by (blast intro: tag_contents.no_open)
  next
    case True
    from first_occurrence [OF this assms(1)] obtain t r0
      where s: "s = t @ p @ r0" and t: "\<not> sublist p t" by blast
    show ?thesis
    proof (cases "sublist cl r0")
      case False
      with t show ?thesis unfolding s by (blast intro: tag_contents.no_close)
    next
      case True
      from first_occurrence [OF this assms(2)] obtain c r
        where r0: "r0 = c @ cl @ r" and c: "\<not> sublist cl c" by blast
      have "length r < length s" using assms by (simp add: s r0)
      with 1 obtain cs where "tag_contents p cl r cs" by blast
      with t c show ?thesis unfolding s r0 by (blast intro: tag_contents.block)
    qed
  qed
qed

section \<open>Properties of the dependency collector\<close>

lemma tag_like_reference: "tag_like ''<reference>''" "tag_like ''</reference>''"
  "tag_like ''<import>''" "tag_like ''</import>''"
  "tag_like ''<ns0:language>''" "tag_like ''</ns0:language>''" "tag_like ''</ns0:code>''"
  by (simp_all add: tag_like_def)

lemma tag_contents_unique:
  assumes "tag_like p" "tag_like cl" "tag_contents p cl s cs" "tag_contents p cl s cs'"
  shows "cs' = cs"
  using tag_contents_sound [OF assms(3) assms(1,2)] tag_contents_sound [OF assms(4) assms(1,2)]
  by simp

text \<open>
  C2. For every input file \<open>extract_text_between_tags\<close> returns the reference-tagged
  matches first, in document order, then the import-tagged matches, in document order;
  every name is the tag content with leading and trailing whitespace removed; a content
  may hold line breaks; nothing is deduplicated. The contents are those of
  \<open>tag_contents\<close>, which determines them.
\<close>

theorem extract_text_between_tags_order:
  assumes "files fs file_path = Some content"
  shows "\<exists>refs imps.
      tag_contents ''<reference>'' ''</reference>'' content refs
    \<and> tag_contents ''<import>'' ''</import>'' content imps
    \<and> (\<forall>refs'. tag_contents ''<reference>'' ''</reference>'' content refs' \<longrightarrow> refs' = refs)
    \<and> (\<forall>imps'. tag_contents ''<import>'' ''</import>'' content imps' \<longrightarrow> imps' = imps)
    \<and> extract_text_between_tags fs file_path =
        Inr (map (\<lambda>m. (''reference'', strip m)) refs @ map (\<lambda>m. (''import'', strip m)) imps)"
proof -
  obtain refs where refs: "tag_contents ''<reference>'' ''</reference>'' content refs"
    using tag_contents_total [of "''<reference>''" "''</reference>''" content] by auto
  obtain imps where imps: "tag_contents ''<import>'' ''</import>'' content imps"
    using tag_contents_total [of "''<import>''" "''</import>''" content] by auto
  have r: "re_findall (match_lit ''<reference>'') ''</reference>'' content = refs"
    by (rule tag_contents_sound [OF refs tag_like_reference(1,2)])
  have i: "re_findall (match_lit ''<import>'') ''</import>'' content = imps"
    by (rule tag_contents_sound [OF imps tag_like_reference(3,4)])
  have "extract_text_between_tags fs file_path =
        Inr (map (\<lambda>m. (''reference'', strip m)) refs @ map (\<lambda>m. (''import'', strip m)) imps)"
    by (simp add: extract_text_between_tags_def assms r i)
  moreover have "\<forall>refs'. tag_contents ''<reference>'' ''</reference>'' content refs' \<longrightarrow> refs' = refs"
    using tag_contents_unique [OF tag_like_reference(1,2) refs] by blast
  moreover have "\<forall>imps'. tag_contents ''<import>'' ''</import>'' content imps' \<longrightarrow> imps' = imps"
    using tag_contents_unique [OF tag_like_reference(3,4) imps] by blast
  ultimately show ?thesis using refs imps by blast
qed

lemmas scan_eval = extract_text_between_tags_def re_findall_def match_at_def strip_def
  py_isspace_def

text \<open>
  A file with a reference whose content spans three lines, an import between two
  references, and the same name referenced twice.
\<close>

theorem extract_text_between_tags_order_witness:
  "files \<lparr> files = [''release.xml'' \<mapsto>
        ''<deps><reference>'' @ [CHR 0x0A] @ ''  Newtonsoft.Json'' @ [CHR 0x0A] @
        ''</reference><import> System.IO </import><reference>Newtonsoft.Json</reference></deps>''],
      dirs = {}, denied = {} \<rparr> ''release.xml'' = Some
       (''<deps><reference>'' @ [CHR 0x0A] @ ''  Newtonsoft.Json'' @ [CHR 0x0A] @
        ''</reference><import> System.IO </import><reference>Newtonsoft.Json</reference></deps>'')
   \<and> extract_text_between_tags \<lparr> files = [''release.xml'' \<mapsto>
        ''<deps><reference>'' @ [CHR 0x0A] @ ''  Newtonsoft.Json'' @ [CHR 0x0A] @
        ''</reference><import> System.IO </import><reference>Newtonsoft.Json</reference></deps>''],
      dirs = {}, denied = {} \<rparr> ''release.xml'' =
     Inr [(''reference'', ''Newtonsoft.Json''), (''reference'', ''Newtonsoft.Json''),
          (''import'', ''System.IO'')]"
  using extract_text_between_tags_order [of "\<lparr> files = [''release.xml'' \<mapsto>
        ''<deps><reference>'' @ [CHR 0x0A] @ ''  Newtonsoft.Json'' @ [CHR 0x0A] @
        ''</reference><import> System.IO </import><reference>Newtonsoft.Json</reference></deps>''],
      dirs = {}, denied = {} \<rparr>" "''release.xml''"]
  by (simp add: scan_eval)

text \<open>
  C10. Dependency collection reads the file as text: a \<open>reference\<close> inside an XML comment
  and an \<open>import\<close> inside the character data of an embedded code block are both returned.
\<close>

theorem extract_text_between_tags_textual:
  "extract_text_between_tags \<lparr> files = [''release.xml'' \<mapsto>
        ''<process><!-- <reference>Old.Lib</reference> --><code><![CDATA[load(<import>Not.A.Lib</import>)]]></code></process>''],
      dirs = {}, denied = {} \<rparr> ''release.xml'' =
     Inr [(''reference'', ''Old.Lib''), (''import'', ''Not.A.Lib'')]"
  by (simp add: scan_eval)

section \<open>Properties of the extension mapping\<close>

lemma lower_char_letter:
  assumes "97 \<le> (of_char a :: nat)" "(of_char a :: nat) \<le> 122"
  shows "lower_char x = a \<longleftrightarrow> same_letter a x"
proof -
  have lt: "(of_char x :: nat) < 256" by simp
  have up: "char_of (of_char x + 32 :: nat) = a \<longleftrightarrow> (of_char x :: nat) + 32 = of_char a"
    if "(of_char x :: nat) + 32 < 256"
  proof
    assume "char_of (of_char x + 32 :: nat) = a"
    then have "(of_char (char_of (of_char x + 32 :: nat)) :: nat) = of_char a" by simp
    then show "(of_char x :: nat) + 32 = of_char a" using that by simp
  next
    assume "(of_char x :: nat) + 32 = of_char a"
    then have "char_of (of_char x + 32 :: nat) = char_of (of_char a :: nat)" by simp
    then show "char_of (of_char x + 32 :: nat) = a" by simp
  qed
  have eq: "x = a \<longleftrightarrow> (of_char x :: nat) = of_char a" by simp
  show ?thesis
    unfolding lower_char_def same_letter_def Let_def
    using assms up eq lt by (auto simp del: of_char_eq_iff)
qed


lemma lower_any_case:
  assumes "\<forall>a \<in> set key. 97 \<le> (of_char a :: nat) \<and> (of_char a :: nat) \<le> 122"
  shows "lower s = key \<longleftrightarrow> any_case key s"
  using assms
proof (induction key arbitrary: s)
  case Nil
  then show ?case by (simp add: lower_def any_case_def)
next
  case (Cons a key)
  show ?case
  proof (cases s)
    case Nil
    then show ?thesis by (simp add: lower_def any_case_def)
  next
    case (Cons x xs)
    from Cons.prems have a: "97 \<le> (of_char a :: nat)" "(of_char a :: nat) \<le> 122" by simp_all
    from Cons.prems have "lower xs = key \<longleftrightarrow> any_case key xs"
      by (intro Cons.IH) simp
    then show ?thesis
      using lower_char_letter [OF a, of x]
      by (simp add: Cons lower_def any_case_def)
  qed
qed

lemma keys_lower_case:
  "\<forall>a \<in> set ''csharp''. 97 \<le> (of_char a :: nat) \<and> (of_char a :: nat) \<le> 122"
  "\<forall>a \<in> set ''powershell''. 97 \<le> (of_char a :: nat) \<and> (of_char a :: nat) \<le> 122"
  "\<forall>a \<in> set ''visualbasic''. 97 \<le> (of_char a :: nat) \<and> (of_char a :: nat) \<le> 122"
  by simp_all

lemma file_extension_lower:
  "file_extension language =
     (if lower language = ''csharp'' then ''cs''
      else if lower language = ''powershell'' then ''ps1''
      else if lower language = ''visualbasic'' then ''vb''
      else ''txt'')"
  by (simp add: file_extension_def extension_map_def)

lemma detect_language_default:
  "re_search (match_lit ''<ns0:language>'') ''</ns0:language>'' s = None \<Longrightarrow>
   detect_language s = ''unknown''"
  by (simp add: detect_language_def)

text \<open>
  C4. The mapping from language to extension is exact and does not depend on letter
  case: \<open>csharp\<close> in any letter case gives \<open>cs\<close>, \<open>powershell\<close> gives \<open>ps1\<close>,
  \<open>visualbasic\<close> gives \<open>vb\<close>, every other string gives \<open>txt\<close>; when the stage has
  no language element the language is \<open>"unknown"\<close> and the extension \<open>txt\<close>.
\<close>

theorem file_extension_any_case:
  "file_extension language =
     (if any_case ''csharp'' language then ''cs''
      else if any_case ''powershell'' language then ''ps1''
      else if any_case ''visualbasic'' language then ''vb''
      else ''txt'')
   \<and> (re_search (match_lit ''<ns0:language>'') ''</ns0:language>'' s = None \<longrightarrow>
        detect_language s = ''unknown'' \<and> file_extension (detect_language s) = ''txt'')"
proof -
  have "file_extension ''unknown'' = ''txt''"
    by (simp add: file_extension_lower lower_def lower_char_def)
  then show ?thesis
    using lower_any_case [OF keys_lower_case(1), of language]
      lower_any_case [OF keys_lower_case(2), of language]
      lower_any_case [OF keys_lower_case(3), of language]
    by (simp add: file_extension_lower detect_language_default)
qed

theorem file_extension_any_case_witness:
  "file_extension ''CSharp'' = ''cs'' \<and> file_extension ''csharp'' = ''cs''
   \<and> file_extension ''PowerShell'' = ''ps1'' \<and> file_extension ''VisualBasic'' = ''vb''
   \<and> file_extension ''VISUALBASIC'' = ''vb'' \<and> file_extension ''python'' = ''txt''
   \<and> file_extension ''c#'' = ''txt''
   \<and> re_search (match_lit ''<ns0:language>'') ''</ns0:language>''
         ''<ns0:stage><ns0:code>A</ns0:code></ns0:stage>'' = None
   \<and> detect_language ''<ns0:stage><ns0:code>A</ns0:code></ns0:stage>'' = ''unknown''
   \<and> file_extension (detect_language ''<ns0:stage><ns0:code>A</ns0:code></ns0:stage>'') = ''txt''"
  using file_extension_any_case [of "''CSharp''" "''<ns0:stage><ns0:code>A</ns0:code></ns0:stage>''"]
    file_extension_any_case [of "''csharp''"] file_extension_any_case [of "''PowerShell''"]
    file_extension_any_case [of "''VisualBasic''"] file_extension_any_case [of "''VISUALBASIC''"]
    file_extension_any_case [of "''python''"] file_extension_any_case [of "''c#''"]
  by (simp add: any_case_def same_letter_def match_at_def)

section \<open>Properties of language detection\<close>

lemma re_search_no_open:
  assumes "p \<noteq> []" "\<not> sublist p s"
  shows "re_search (match_lit p) cl s = None"
  using assms(2)
proof (induction s)
  case Nil
  then show ?case using assms(1) by (cases p) (auto simp: match_at_def)
next
  case (Cons x s)
  then have "\<not> prefix p (x # s)" and "\<not> sublist p s" by (auto simp: sublist_Cons_right)
  then show ?case using Cons.IH by (simp add: match_at_no_prefix)
qed

lemma re_search_skip:
  assumes "tag_like p" "\<not> sublist p t"
  shows "re_search (match_lit p) cl (t @ p @ r) = re_search (match_lit p) cl (p @ r)"
  using assms(2)
proof (induction t)
  case Nil
  then show ?case by simp
next
  case (Cons x t)
  from no_overlap [OF assms(1) Cons.prems] have "\<not> prefix p ((x # t) @ p @ r)" by simp
  then have "match_at (match_lit p) False cl (x # t @ p @ r) = None"
    using match_at_no_prefix [of p "x # t @ p @ r"] by simp
  moreover from Cons.prems have "\<not> sublist p t" by (simp add: sublist_Cons_right)
  ultimately show ?case using Cons.IH by simp
qed

lemma lazy_until_newline:
  assumes "newline \<notin> set cl" "\<not> sublist cl c" "newline \<in> set c"
  shows "lazy_until False cl (c @ cl @ post) = None"
  using assms(2,3)
proof (induction c)
  case Nil
  then show ?case by simp
next
  case (Cons x c)
  have np: "\<not> prefix cl ((x # c) @ cl @ post)"
  proof
    assume "prefix cl ((x # c) @ cl @ post)"
    then have "prefix cl (x # c) \<or> (\<exists>us. cl = (x # c) @ us \<and> prefix us (cl @ post))"
      by (simp only: prefix_append)
    moreover have "\<not> prefix cl (x # c)" using Cons.prems(1) prefix_imp_sublist by blast
    ultimately obtain us where "cl = (x # c) @ us" by blast
    then have "set (x # c) \<subseteq> set cl" by (metis set_append Un_upper1)
    with Cons.prems(2) assms(1) show False by blast
  qed
  then have m: "match_lit cl (x # c @ cl @ post) = None" by (simp add: match_lit_None)
  show ?case
  proof (cases "x = newline")
    case True
    with m show ?thesis by simp
  next
    case False
    with Cons.prems have "\<not> sublist cl c" "newline \<in> set c"
      by (auto simp: sublist_Cons_right)
    from Cons.IH [OF this] m show ?thesis by simp
  qed
qed

lemma re_search_single_multiline:
  assumes "tag_like p" "newline \<notin> set cl"
    and "\<not> sublist p pre" "\<not> sublist p (c @ cl @ post)"
    and "\<not> sublist cl c" "newline \<in> set c"
  shows "re_search (match_lit p) cl (pre @ p @ c @ cl @ post) = None"
proof -
  from assms(1) obtain a ps where p: "p = a # ps" and a: "a \<notin> set ps"
    by (cases p) (auto simp: tag_like_def)
  have "re_search (match_lit p) cl (pre @ p @ c @ cl @ post) =
      re_search (match_lit p) cl (p @ c @ cl @ post)"
    by (rule re_search_skip [OF assms(1,3)])
  also have "match_at (match_lit p) False cl (p @ c @ cl @ post) = None"
    by (simp add: match_at_lit lazy_until_newline [OF assms(2,5,6)])
  then have "re_search (match_lit p) cl (p @ c @ cl @ post) =
      re_search (match_lit p) cl (ps @ c @ cl @ post)"
    by (simp add: p)
  also have "\<dots> = None"
  proof (rule re_search_no_open)
    show "p \<noteq> []" by (simp add: p)
    show "\<not> sublist p (ps @ c @ cl @ post)"
      by (rule no_occurrence_after) (use p a assms(4) in auto)
  qed
  finally show ?thesis .
qed

lemma code_blocks_block:
  assumes "\<not> sublist ''</ns0:code>'' b"
  shows "code_blocks (''<ns0:code>'' @ b @ ''</ns0:code>'') = [b]"
proof -
  have o: "code_open (''<ns0:code>'' @ b @ ''</ns0:code>'') = Some (b @ ''</ns0:code>'')"
    by (simp add: code_open_def)
  have l: "lazy_until True ''</ns0:code>'' (b @ ''</ns0:code>'' @ []) = Some (b, [])"
    by (rule lazy_until_first [OF tag_like_reference(7) assms])
  have m: "match_at code_open True ''</ns0:code>'' (''<ns0:code>'' @ b @ ''</ns0:code>'') =
      Some (b, length (''<ns0:code>'' @ b @ ''</ns0:code>''))"
    using l o by (simp add: match_at_def)
  have e: "re_findall_from code_open ''</ns0:code>'' 0 [] = []"
    by (simp add: match_at_def code_open_def)
  have "re_findall_from code_open ''</ns0:code>'' (length (''<ns0:code>'' @ b @ ''</ns0:code>'') - 1)
      (tl (''<ns0:code>'' @ b @ ''</ns0:code>'')) =
    re_findall_from code_open ''</ns0:code>'' 0
      (drop (length (''<ns0:code>'' @ b @ ''</ns0:code>'') - 1) (tl (''<ns0:code>'' @ b @ ''</ns0:code>'')))"
    by (rule re_findall_from_drop) simp
  then have "re_findall_from code_open ''</ns0:code>'' (length (''<ns0:code>'' @ b @ ''</ns0:code>'') - 1)
      (tl (''<ns0:code>'' @ b @ ''</ns0:code>'')) = []"
    using e by simp
  then show ?thesis
    using m by (simp add: code_blocks_def re_findall_def)
qed


lemma newline_not_in_close: "newline \<notin> set ''</ns0:language>''"
  by (simp add: newline_def)

lemma reference_block:
  assumes "\<not> sublist ''</reference>'' b"
  shows "re_findall (match_lit ''<reference>'') ''</reference>''
     (''<reference>'' @ b @ ''</reference>'') = [b]"
proof -
  have "tag_contents ''<reference>'' ''</reference>'' [] []"
    by (rule tag_contents.no_open) simp
  then have "tag_contents ''<reference>'' ''</reference>''
      ([] @ ''<reference>'' @ b @ ''</reference>'' @ []) [b]"
    by (intro tag_contents.block assms) simp
  from tag_contents_sound [OF this tag_like_reference(1,2)] show ?thesis by simp
qed

text \<open>
  C9. Language detection does not match across line breaks: when the only language
  element of the serialised stage has a content with a newline, the stage is classified
  \<open>"unknown"\<close> and its fragments get the extension \<open>txt\<close>, although the same content
  between code tags or reference tags is matched in full.
\<close>

theorem language_single_line:
  assumes "tostring stage = pre @ ''<ns0:language>'' @ c @ ''</ns0:language>'' @ post"
    and "newline \<in> set c"
    and "\<not> sublist ''</ns0:language>'' c"
    and "\<not> sublist ''<ns0:language>'' pre"
    and "\<not> sublist ''<ns0:language>'' (c @ ''</ns0:language>'' @ post)"
    and "\<not> sublist ''</ns0:code>'' c"
    and "\<not> sublist ''</reference>'' c"
  shows "detect_language (tostring stage) = ''unknown''
    \<and> file_extension (detect_language (tostring stage)) = ''txt''
    \<and> process_stage tostring output_dir stage fs =
        write_blocks output_dir (get stage ''name'' ''UnnamedStage'') ''txt'' 1
          (code_blocks (tostring stage)) fs
    \<and> code_blocks (''<ns0:code>'' @ c @ ''</ns0:code>'') = [c]
    \<and> re_findall (match_lit ''<reference>'') ''</reference>''
          (''<reference>'' @ c @ ''</reference>'') = [c]"
proof -
  have "re_search (match_lit ''<ns0:language>'') ''</ns0:language>'' (tostring stage) = None"
    unfolding assms(1)
    by (rule re_search_single_multiline
        [OF tag_like_reference(5) newline_not_in_close assms(4,5,3,2)])
  then have d: "detect_language (tostring stage) = ''unknown''"
    by (rule detect_language_default)
  have e: "file_extension ''unknown'' = ''txt''"
    by (simp add: file_extension_lower lower_def lower_char_def)
  have "process_stage tostring output_dir stage fs =
        write_blocks output_dir (get stage ''name'' ''UnnamedStage'') ''txt'' 1
          (code_blocks (tostring stage)) fs"
    by (simp add: process_stage_def d e)
  then show ?thesis
    using d e code_blocks_block [OF assms(6)] reference_block [OF assms(7)] by simp
qed

theorem language_single_line_witness:
  "detect_language multiline_stage = ''unknown''
   \<and> file_extension (detect_language multiline_stage) = ''txt''
   \<and> newline \<in> set ([CHR 0x0A] @ ''csharp'' @ [CHR 0x0A])
   \<and> code_blocks (''<ns0:code>'' @ [CHR 0x0A] @ ''csharp'' @ [CHR 0x0A] @ ''</ns0:code>'') =
       [[CHR 0x0A] @ ''csharp'' @ [CHR 0x0A]]
   \<and> process_stage (\<lambda>e. multiline_stage) ''out''
        (Element ''{http://www.robotvendor.com/product/process}stage'' [(''name'', ''Main'')]
           None [] None)
        \<lparr> files = Map.empty, dirs = {''out''}, denied = {} \<rparr> =
       (None, \<lparr> files = [''out/Main_1.txt'' \<mapsto> ''A''], dirs = {''out''}, denied = {} \<rparr>)"
proof -
  have h1: "(\<lambda>e. multiline_stage)
      (Element ''{http://www.robotvendor.com/product/process}stage'' [(''name'', ''Main'')]
           None [] None) =
      ''<ns0:stage>'' @ ''<ns0:language>'' @ ([CHR 0x0A] @ ''csharp'' @ [CHR 0x0A]) @
      ''</ns0:language>'' @ ''<ns0:code>A</ns0:code></ns0:stage>''"
    by simp
  have h2: "newline \<in> set ([CHR 0x0A] @ ''csharp'' @ [CHR 0x0A])"
    by (simp add: newline_def)
  have h3: "\<not> sublist ''</ns0:language>'' ([CHR 0x0A] @ ''csharp'' @ [CHR 0x0A])"
    by (simp add: sublist_Cons_right)
  have h4: "\<not> sublist ''<ns0:language>'' ''<ns0:stage>''"
    by (simp add: sublist_Cons_right)
  have h5: "\<not> sublist ''<ns0:language>'' (([CHR 0x0A] @ ''csharp'' @ [CHR 0x0A]) @
      ''</ns0:language>'' @ ''<ns0:code>A</ns0:code></ns0:stage>'')"
    by (simp add: sublist_Cons_right)
  have h6: "\<not> sublist ''</ns0:code>'' ([CHR 0x0A] @ ''csharp'' @ [CHR 0x0A])"
    by (simp add: sublist_Cons_right)
  have h7: "\<not> sublist ''</reference>'' ([CHR 0x0A] @ ''csharp'' @ [CHR 0x0A])"
    by (simp add: sublist_Cons_right)
  have w: "write_blocks ''out'' ''Main'' ''txt'' 1 [''A'']
       \<lparr> files = Map.empty, dirs = {''out''}, denied = {} \<rparr> =
       (None, \<lparr> files = [''out/Main_1.txt'' \<mapsto> ''A''], dirs = {''out''}, denied = {} \<rparr>)"
    by (simp add: write_file_def os_path_join_def file_name_def str_nat.simps digit_def
        strip_def py_isspace_def suffix_def)
  have cb: "code_blocks multiline_stage = [''A'']"
    by (simp add: code_blocks_def re_findall_def match_at_def code_open_def)
  from language_single_line [where output_dir = "''out''"
      and fs = "\<lparr> files = Map.empty, dirs = {''out''}, denied = {} \<rparr>"
      and tostring = "\<lambda>e. multiline_stage"
      and stage = "Element ''{http://www.robotvendor.com/product/process}stage''
          [(''name'', ''Main'')] None [] None",
      OF h1 h2 h3 h4 h5 h6 h7]
  show ?thesis using h2 w cb
    by (simp add: get_def file_extension_lower lower_def lower_char_def)
qed

end
